theory Spec2Isabelle
  imports Main "HOL-Library.Product_Lexorder"
begin

section \<open>Errors\<close>

text \<open>
  Every exception the modelled code raises is a value. \<open>TransportError\<close> stands for
  whatever the HTTP or GraphQL transport raises that is not an \<open>HTTPError\<close>.
\<close>

datatype error =
    AssertionError
  | TypeError
  | ValueError
  | KeyError
  | HTTPError
  | TransportError
  | DownloadError
  | ZeroDivisionError

section \<open>lib/memberful.py: the GraphQL client\<close>

subsection \<open>Responses\<close>

text \<open>
  A decoded JSON value. A node is a Python dict, kept as an association list because
  \<open>json.dumps\<close> (inside \<open>hash_data\<close>) depends on the order of the keys.
  JSON floats do not occur in the modelled responses.
\<close>

datatype json =
    JNull
  | JBool bool
  | JInt int
  | JStr string
  | JArr "json list"
  | JObj "(string \<times> json) list"

type_synonym node = "(string \<times> json) list"

record page_info =
  hasNextPage :: bool
  endCursor :: "string option"

text \<open>
  \<open>result[collection_name]\<close>: the payload of the collection named in the query. Each
  element of \<open>edges\<close> is the \<open>edge["node"]\<close> of the response.
\<close>

record collection =
  totalCount :: int
  pageInfo :: page_info
  edges :: "node list"

subsection \<open>\<open>MemberfulAPI._query\<close>\<close>

text \<open>
  The generator \<open>_query\<close>. Its state is the loop variable \<open>cursor\<close> (\<open>None\<close> once the
  \<open>while\<close> condition fails) and the state \<open>'s\<close> of whatever \<open>_execute_query\<close> touches.
  \<open>execute s cursor\<close> stands for
  \<open>self._execute_query(query, dict(cursor=cursor, **variable_values))\<close>.
  One call of \<open>query_next\<close> is one \<open>next()\<close> on the generator: it stops, or the
  request raises, or it yields the result and moves the cursor. The step keeps the
  cursor that was sent.
\<close>

datatype ('r, 's) gen_step =
    Stop
  | Raise string error 's
  | Yield string 'r "string option" 's

definition query_next ::
  "('s \<Rightarrow> string \<Rightarrow> (error + 'r) \<times> 's) \<Rightarrow> ('r \<Rightarrow> page_info) \<Rightarrow> string option \<Rightarrow> 's
     \<Rightarrow> ('r, 's) gen_step" where
  "query_next execute get_page_info cursor s =
     (case cursor of
        None \<Rightarrow> Stop
      | Some c \<Rightarrow>
          (case execute s c of
             (Inl e, s') \<Rightarrow> Raise c e s'
           | (Inr result, s') \<Rightarrow>
               Yield c result
                 (if hasNextPage (get_page_info result)
                  then endCursor (get_page_info result)
                  else None) s'))"

text \<open>
  Draining the generator: the list of requests made (the cursor passed and what came
  back), the exception that ended the drain if one did, and the final state. A pagination
  that never ends has no value (\<open>None\<close>).
\<close>

partial_function (option) query_drain ::
  "('s \<Rightarrow> string \<Rightarrow> (error + 'r) \<times> 's) \<Rightarrow> ('r \<Rightarrow> page_info) \<Rightarrow> string option \<Rightarrow> 's
     \<Rightarrow> ((string \<times> (error + 'r)) list \<times> error option \<times> 's) option" where
  "query_drain execute get_page_info cursor s =
     (case query_next execute get_page_info cursor s of
        Stop \<Rightarrow> Some ([], None, s)
      | Raise c e s' \<Rightarrow> Some ([(c, Inl e)], Some e, s')
      | Yield c result cursor' s' \<Rightarrow>
          Option.bind (query_drain execute get_page_info cursor' s')
            (\<lambda>(trace, err, s''). Some ((c, Inr result) # trace, err, s'')))"

definition query_pages ::
  "('s \<Rightarrow> string \<Rightarrow> (error + 'r) \<times> 's) \<Rightarrow> ('r \<Rightarrow> page_info) \<Rightarrow> 's
     \<Rightarrow> ((string \<times> (error + 'r)) list \<times> error option \<times> 's) option" where
  "query_pages execute get_page_info s = query_drain execute get_page_info (Some '''') s"

text \<open>
  One turn of the \<open>while\<close> loop on the pair of \<open>cursor\<close> and state, and the pair after
  \<open>n\<close> turns. The loop is over when the cursor is \<open>None\<close>.
\<close>

definition query_turn ::
  "('s \<Rightarrow> string \<Rightarrow> (error + 'r) \<times> 's) \<Rightarrow> ('r \<Rightarrow> page_info) \<Rightarrow> string option \<times> 's
     \<Rightarrow> string option \<times> 's" where
  "query_turn execute get_page_info cs =
     (case query_next execute get_page_info (fst cs) (snd cs) of
        Stop \<Rightarrow> (None, snd cs)
      | Raise c e s' \<Rightarrow> (None, s')
      | Yield c result cursor' s' \<Rightarrow> (cursor', s'))"

definition query_after ::
  "('s \<Rightarrow> string \<Rightarrow> (error + 'r) \<times> 's) \<Rightarrow> ('r \<Rightarrow> page_info) \<Rightarrow> nat \<Rightarrow> 's
     \<Rightarrow> string option \<times> 's" where
  "query_after execute get_page_info n s =
     (query_turn execute get_page_info ^^ n) (Some '''', s)"

subsection \<open>\<open>MemberfulAPI.get_nodes\<close>\<close>

text \<open>
  Python's truth value of a decoded JSON value, as \<open>or\<close> tests it.
\<close>

fun truthy :: "json \<Rightarrow> bool" where
  "truthy JNull = False"
| "truthy (JBool b) = b"
| "truthy (JInt n) = (n \<noteq> 0)"
| "truthy (JStr s) = (s \<noteq> [])"
| "truthy (JArr xs) = (xs \<noteq> [])"
| "truthy (JObj kvs) = (kvs \<noteq> [])"

text \<open>
  What \<open>seen_node_ids\<close> holds. A Python set compares with \<open>==\<close>, under which \<open>True\<close> and
  \<open>1\<close> are the same element; a list or a dict is unhashable and the membership test
  raises \<open>TypeError\<close>.
\<close>

datatype ident = IdInt int | IdStr string

text \<open>
  \<open>node.get("id") or hash_data(node)\<close>, with \<open>hash_data\<close> (SHA-256 of the JSON dump)
  a parameter.
\<close>

definition node_identity :: "(json \<Rightarrow> string) \<Rightarrow> node \<Rightarrow> error + ident" where
  "node_identity hash_data node =
     (case map_of node ''id'' of
        None \<Rightarrow> Inr (IdStr (hash_data (JObj node)))
      | Some v \<Rightarrow>
          if truthy v then
            (case v of
               JBool b \<Rightarrow> Inr (IdInt 1)
             | JInt n \<Rightarrow> Inr (IdInt n)
             | JStr s \<Rightarrow> Inr (IdStr s)
             | _ \<Rightarrow> Inl TypeError)
          else Inr (IdStr (hash_data (JObj node))))"

text \<open>The local variables of \<open>get_nodes\<close>, and the nodes yielded so far.\<close>

record gn_state =
  declared_count :: "int option"
  nodes_count :: int
  duplicates_count :: int
  seen_node_ids :: "ident set"
  yielded :: "node list"

definition gn_init :: gn_state where
  "gn_init = \<lparr>declared_count = None, nodes_count = 0, duplicates_count = 0,
              seen_node_ids = {}, yielded = []\<rparr>"

text \<open>The inner \<open>for edge in ...\<close> loop; an exception leaves the state as it was then.\<close>

fun process_edges :: "(json \<Rightarrow> string) \<Rightarrow> node list \<Rightarrow> gn_state \<Rightarrow> gn_state \<times> error option" where
  "process_edges hash_data [] st = (st, None)"
| "process_edges hash_data (node # rest) st =
     (case node_identity hash_data node of
        Inl e \<Rightarrow> (st, Some e)
      | Inr node_id \<Rightarrow>
          process_edges hash_data rest
            (if node_id \<in> seen_node_ids st
             then st\<lparr>duplicates_count := duplicates_count st + 1,
                     nodes_count := nodes_count st + 1\<rparr>
             else st\<lparr>yielded := yielded st @ [node],
                     seen_node_ids := insert node_id (seen_node_ids st),
                     nodes_count := nodes_count st + 1\<rparr>))"

text \<open>The body of the outer \<open>for result in self._query(...)\<close> loop.\<close>

definition process_page :: "(json \<Rightarrow> string) \<Rightarrow> collection \<Rightarrow> gn_state \<Rightarrow> gn_state \<times> error option" where
  "process_page hash_data result st =
     (let count = totalCount result;
          st1 = (if declared_count st = None then st\<lparr>declared_count := Some count\<rparr> else st)
      in if declared_count st1 \<noteq> Some count then (st1, Some AssertionError)
         else process_edges hash_data (edges result) st1)"

text \<open>The two assertions after the loop.\<close>

definition after_pages :: "gn_state \<Rightarrow> error option" where
  "after_pages st =
     (if duplicates_count st \<noteq> 0 then Some AssertionError
      else if declared_count st \<noteq> Some (nodes_count st) then Some AssertionError
      else None)"

text \<open>
  \<open>get_nodes\<close> drained by its caller, with the collection name already read from the
  query (a query without one raises \<open>ValueError\<close> before any request): the final local state (with everything yielded),
  the exception raised if any, and the state of the executor. \<open>None\<close> is a drain that
  never ends.
\<close>

partial_function (option) get_nodes_loop ::
  "('s \<Rightarrow> string \<Rightarrow> (error + collection) \<times> 's) \<Rightarrow> (json \<Rightarrow> string) \<Rightarrow> gn_state
     \<Rightarrow> string option \<Rightarrow> 's \<Rightarrow> (gn_state \<times> error option \<times> 's) option" where
  "get_nodes_loop execute hash_data st cursor s =
     (case query_next execute pageInfo cursor s of
        Stop \<Rightarrow> Some (st, after_pages st, s)
      | Raise c e s' \<Rightarrow> Some (st, Some e, s')
      | Yield c result cursor' s' \<Rightarrow>
          (case process_page hash_data result st of
             (st', Some e) \<Rightarrow> Some (st', Some e, s')
           | (st', None) \<Rightarrow> get_nodes_loop execute hash_data st' cursor' s'))"

definition get_nodes ::
  "('s \<Rightarrow> string \<Rightarrow> (error + collection) \<times> 's) \<Rightarrow> (json \<Rightarrow> string) \<Rightarrow> 's
     \<Rightarrow> (gn_state \<times> error option \<times> 's) option" where
  "get_nodes execute hash_data s = get_nodes_loop execute hash_data gn_init (Some '''') s"

subsection \<open>\<open>MemberfulAPI._execute_query\<close>\<close>

text \<open>
  The injected \<open>diskcache.Cache\<close>: entries of key, value and tag, one entry per key.
  \<open>cache[key]\<close> raises \<open>KeyError\<close> on a missing key (\<open>None\<close> here),
  \<open>cache.set(key, value, tag=tag)\<close> replaces the entry of the key,
  \<open>cache.evict(tag)\<close> removes the entries of the tag.
\<close>

type_synonym 'v cache = "(string \<times> 'v \<times> string) list"

definition cache_getitem :: "'v cache \<Rightarrow> string \<Rightarrow> 'v option" where
  "cache_getitem c key = map_option fst (map_of c key)"

definition cache_set :: "string \<Rightarrow> 'v \<Rightarrow> string \<Rightarrow> 'v cache \<Rightarrow> 'v cache" where
  "cache_set key v tag c = filter (\<lambda>entry. fst entry \<noteq> key) c @ [(key, v, tag)]"

definition cache_evict :: "string \<Rightarrow> 'v cache \<Rightarrow> 'v cache" where
  "cache_evict tag c = filter (\<lambda>entry. snd (snd entry) \<noteq> tag) c"

text \<open>
  What a client does to the outside world, in order: a GraphQL execution with its query
  and variables, an HTTP request with its URL, a \<open>time.sleep\<close> with its seconds.
\<close>

datatype event =
    Execute string json
  | Post string
  | Get string
  | Sleep nat

text \<open>
  The attributes \<open>cache\<close> and \<open>clear_cache\<close> of a client (\<open>MemberfulAPI\<close> or
  \<open>MemberfulCSV\<close>), with the log of the evictions it asked for and of its events.
  The cache attribute is \<open>None\<close> when no cache was injected.
\<close>

record 'v client =
  cache :: "'v cache option"
  clear_cache :: bool
  evictions :: "string list"
  events :: "event list"

text \<open>
  \<open>if self.cache:\<close> is Python's truth value of the attribute. \<open>None\<close> is false.
  \<open>diskcache.Cache\<close> defines \<open>__len__\<close> (the number of entries) and no
  \<open>__bool__\<close>, so a cache is true exactly when it holds an entry.
\<close>

definition cache_truthy :: "'v cache option \<Rightarrow> bool" where
  "cache_truthy c = (case c of None \<Rightarrow> False | Some entries \<Rightarrow> length entries \<noteq> 0)"

text \<open>
  The first \<open>if self.cache:\<close> block, shared by \<open>_execute_query\<close> and \<open>download_csv\<close>:
  the eviction when the clear flag is set, then the lookup. It returns the state and the
  cached value on a hit.
\<close>

definition cache_lookup :: "string \<Rightarrow> string \<Rightarrow> 'v client \<Rightarrow> 'v client \<times> 'v option" where
  "cache_lookup cache_tag cache_key st =
     (if cache_truthy (cache st) then
        (let st1 = (if clear_cache st
                    then st\<lparr>cache := map_option (cache_evict cache_tag) (cache st),
                            evictions := evictions st @ [cache_tag],
                            clear_cache := False\<rparr>
                    else st)
         in (st1, Option.bind (cache st1) (\<lambda>c. cache_getitem c cache_key)))
      else (st, None))"

text \<open>The second \<open>if self.cache:\<close> block: saving after the fetch.\<close>

definition cache_save :: "string \<Rightarrow> string \<Rightarrow> 'v \<Rightarrow> 'v client \<Rightarrow> 'v client" where
  "cache_save cache_tag cache_key v st =
     (if cache_truthy (cache st)
      then st\<lparr>cache := map_option (cache_set cache_key v cache_tag) (cache st)\<rparr>
      else st)"

definition api_cache_tag :: string where
  "api_cache_tag = ''memberfulapi''"

text \<open>
  \<open>transport query variable_values\<close> stands for
  \<open>self.client.execute(gql(query), variable_values=variable_values)\<close>.
\<close>

definition execute_query ::
  "(json \<Rightarrow> string) \<Rightarrow> (string \<Rightarrow> json \<Rightarrow> error + 'v) \<Rightarrow> 'v client \<Rightarrow> string \<Rightarrow> json
     \<Rightarrow> (error + 'v) \<times> 'v client" where
  "execute_query hash_data transport st query variable_values =
     (let cache_key = hash_data (JObj [(''query'', JStr query),
                                       (''variable_values'', variable_values)])
      in case cache_lookup api_cache_tag cache_key st of
           (st1, Some result) \<Rightarrow> (Inr result, st1)
         | (st1, None) \<Rightarrow>
             (let st2 = st1\<lparr>events := events st1 @ [Execute query variable_values]\<rparr>
              in case transport query variable_values of
                   Inl e \<Rightarrow> (Inl e, st2)
                 | Inr result \<Rightarrow> (Inr result, cache_save api_cache_tag cache_key result st2)))"

text \<open>
  \<open>MemberfulAPI._query\<close> and \<open>MemberfulAPI.get_nodes\<close> on a client: each request is
  \<open>_execute_query(query, dict(cursor=cursor, **variable_values))\<close>.
\<close>

definition api_execute ::
  "(json \<Rightarrow> string) \<Rightarrow> (string \<Rightarrow> json \<Rightarrow> error + 'v) \<Rightarrow> string \<Rightarrow> (string \<times> json) list
     \<Rightarrow> 'v client \<Rightarrow> string \<Rightarrow> (error + 'v) \<times> 'v client" where
  "api_execute hash_data transport query variable_values st cursor =
     execute_query hash_data transport st query
       (JObj ((''cursor'', JStr cursor) # variable_values))"

subsection \<open>\<open>MemberfulCSV.download_csv\<close>\<close>

definition DOWNLOAD_POLLING_WAIT_SEC :: nat where
  "DOWNLOAD_POLLING_WAIT_SEC = 5"

text \<open>
  An HTTP response: its status, its decoded body and its \<open>Location\<close> header.
  \<open>raise_for_status\<close> of the requests library raises \<open>HTTPError\<close> for the statuses
  400 to 599 and for no other.
\<close>

record response =
  status_code :: nat
  content :: string
  location :: "string option"

definition raise_for_status :: "response \<Rightarrow> error + unit" where
  "raise_for_status r =
     (if 400 \<le> status_code r \<and> status_code r < 600 then Inl HTTPError else Inr ())"

text \<open>
  The \<open>for attempt_no in ...\<close> loop over the attempt numbers left.
  \<open>http_get attempt_no\<close> is what \<open>self.session.get(download_url)\<close> does at that
  attempt: it raises or returns a response. The result is the exception that left the
  loop, or the last response when \<open>success\<close> is true, or \<open>None\<close> when the loop ran
  out with \<open>success\<close> false.
\<close>

fun polling ::
  "(nat \<Rightarrow> error + response) \<Rightarrow> string \<Rightarrow> nat list \<Rightarrow> event list
     \<Rightarrow> (error + response option) \<times> event list" where
  "polling http_get download_url [] evs = (Inr None, evs)"
| "polling http_get download_url (attempt_no # rest) evs =
     (case http_get attempt_no of
        Inl e \<Rightarrow>
          if e = HTTPError
          then polling http_get download_url rest
                 (evs @ [Sleep DOWNLOAD_POLLING_WAIT_SEC, Get download_url])
          else (Inl e, evs @ [Sleep DOWNLOAD_POLLING_WAIT_SEC, Get download_url])
      | Inr response \<Rightarrow>
          (case raise_for_status response of
             Inl e \<Rightarrow>
               polling http_get download_url rest
                 (evs @ [Sleep DOWNLOAD_POLLING_WAIT_SEC, Get download_url])
           | Inr u \<Rightarrow>
               (Inr (Some response),
                evs @ [Sleep DOWNLOAD_POLLING_WAIT_SEC, Get download_url])))"

text \<open>
  Lines 237 to 253 of \<open>download_csv\<close>: the loop over \<open>range(1, 10)\<close> and the
  \<open>raise DownloadError\<close> after it.
\<close>

definition download_polling ::
  "(nat \<Rightarrow> error + response) \<Rightarrow> string \<Rightarrow> event list \<Rightarrow> (error + response) \<times> event list" where
  "download_polling http_get download_url evs =
     (case polling http_get download_url [1..<10] evs of
        (Inl e, evs') \<Rightarrow> (Inl e, evs')
      | (Inr None, evs') \<Rightarrow> (Inl DownloadError, evs')
      | (Inr (Some response), evs') \<Rightarrow> (Inr response, evs'))"

definition csv_cache_tag :: string where
  "csv_cache_tag = ''memberfulcsv''"

text \<open>
  \<open>download_csv\<close> with the export URL already built from the parameters.
  \<open>http_post url\<close> is \<open>self.session.post(url, ...)\<close>, the lazy login included.
  The result is the downloaded text, which the source hands to \<open>csv.DictReader\<close>.
\<close>

definition download_csv ::
  "(json \<Rightarrow> string) \<Rightarrow> (string \<Rightarrow> error + response) \<Rightarrow> (nat \<Rightarrow> error + response)
     \<Rightarrow> string client \<Rightarrow> string \<Rightarrow> (error + string) \<times> string client" where
  "download_csv hash_data http_post http_get st url =
     (let cache_key = hash_data (JObj [(''url'', JStr url)])
      in case cache_lookup csv_cache_tag cache_key st of
           (st1, Some data) \<Rightarrow> (Inr data, st1)
         | (st1, None) \<Rightarrow>
             (let st2 = st1\<lparr>events := events st1 @ [Post url]\<rparr>
              in case http_post url of
                   Inl e \<Rightarrow> (Inl e, st2)
                 | Inr response \<Rightarrow>
                     (case raise_for_status response of
                        Inl e \<Rightarrow> (Inl e, st2)
                      | Inr u \<Rightarrow>
                          (case location response of
                             None \<Rightarrow> (Inl KeyError, st2)
                           | Some loc \<Rightarrow>
                               (case download_polling http_get (loc @ ''/download'') (events st2) of
                                  (Inl e, evs) \<Rightarrow> (Inl e, st2\<lparr>events := evs\<rparr>)
                                | (Inr response', evs) \<Rightarrow>
                                    (Inr (content response'),
                                     cache_save csv_cache_tag cache_key (content response')
                                       (st2\<lparr>events := evs\<rparr>)))))))"

section \<open>models/subscription.py\<close>

subsection \<open>Dates and the legacy cutoff\<close>

text \<open>
  A \<open>datetime.date\<close> is year, month and day, ordered lexicographically (the order on
  triples). A \<open>datetime\<close> is a point on a linear time axis.
\<close>

type_synonym date = "nat \<times> nat \<times> nat"

type_synonym datetime = int

definition LEGACY_PLANS_DELETED_ON :: date where
  "LEGACY_PLANS_DELETED_ON = (2023, 2, 24)"

datatype SubscriptionActivityType = TRIAL_START | TRIAL_END | ORDER | DEACTIVATION

datatype SubscriptionInterval = MONTH | YEAR

datatype SubscriptionType = FREE | FINAID | INDIVIDUAL | TRIAL | PARTNER | STUDENT

definition days_in_month :: "nat \<Rightarrow> nat \<Rightarrow> nat" where
  "days_in_month y m =
     (if m = 2 then (if y mod 4 = 0 \<and> (y mod 100 \<noteq> 0 \<or> y mod 400 = 0) then 29 else 28)
      else if m \<in> {4, 6, 9, 11} then 30 else 31)"

text \<open>
  Modelled from the spec: \<open>month_range\<close> of \<open>juniorguru.lib.charts\<close> is imported by
  \<open>subscription.py\<close> and is not among the sources. The spec calls its use "the cutoff
  month"; \<open>signups\<close> unpacks it as \<open>from_date, to_date\<close>: the first and the last day of
  the month of the date.
\<close>

definition month_range :: "date \<Rightarrow> date \<times> date" where
  "month_range d =
     (case d of (y, m, day) \<Rightarrow> ((y, m, 1), (y, m, days_in_month y m)))"

definition is_missing_subscriptions_data :: "date \<Rightarrow> bool" where
  "is_missing_subscriptions_data month =
     (if month < LEGACY_PLANS_DELETED_ON then True
      else if month_range month = month_range LEGACY_PLANS_DELETED_ON then True
      else False)"

text \<open>
  The decorator. \<open>cls\<close> is the table behind the model class. The wrapper's \<open>None\<close> is
  \<open>Inr None\<close>, a value of the method is \<open>Inr (Some v)\<close>, an exception of the method is
  \<open>Inl e\<close>.
\<close>

definition uses_data_from_subscriptions ::
  "(unit \<Rightarrow> 'r) option \<Rightarrow> ('t \<Rightarrow> date \<Rightarrow> error + 'r) \<Rightarrow> 't \<Rightarrow> date \<Rightarrow> error + 'r option" where
  "uses_data_from_subscriptions default' class_method cls date =
     (if is_missing_subscriptions_data date
      then Inr (case default' of Some f \<Rightarrow> Some (f ()) | None \<Rightarrow> None)
      else (case class_method cls date of Inl e \<Rightarrow> Inl e | Inr v \<Rightarrow> Inr (Some v)))"

subsection \<open>The table\<close>

text \<open>
  A row of \<open>SubscriptionActivity\<close>. The table is the list of its rows in insertion order;
  the \<open>id\<close> of a row is its position. The nullable columns are options.
\<close>

record SubscriptionActivity =
  type :: SubscriptionActivityType
  account_id :: string
  account_has_feminine_name :: bool
  happened_on :: date
  happened_at :: datetime
  order_coupon :: "string option"
  subscription_interval :: "SubscriptionInterval option"
  subscription_type :: "SubscriptionType option"

type_synonym table = "SubscriptionActivity list"

text \<open>The unique index \<open>(type, account_id, happened_on)\<close>.\<close>

definition unique_key :: "SubscriptionActivity \<Rightarrow> SubscriptionActivityType \<times> string \<times> date" where
  "unique_key r = (type r, account_id r, happened_on r)"

subsection \<open>\<open>SubscriptionActivity.add\<close>\<close>

text \<open>
  The \<open>DO UPDATE SET\<close> of the upsert on the stored row \<open>r\<close> with the incoming \<open>kwargs\<close>.
  The \<open>update\<close> dict holds every incoming value that is not \<open>None\<close> and not a key field
  (\<open>happened_at\<close> among them, under its name), and last the \<open>Case\<close> expression under the
  field \<open>cls.happened_at\<close>. SQLite keeps the rightmost assignment of a column named
  twice, so \<open>happened_at\<close> gets the \<open>Case\<close>, evaluated on the stored row.
\<close>

definition on_conflict_update :: "SubscriptionActivity \<Rightarrow> SubscriptionActivity \<Rightarrow> SubscriptionActivity" where
  "on_conflict_update r kwargs =
     r\<lparr>account_has_feminine_name := account_has_feminine_name kwargs,
       order_coupon :=
         (case order_coupon kwargs of None \<Rightarrow> order_coupon r | Some v \<Rightarrow> Some v),
       subscription_interval :=
         (case subscription_interval kwargs of None \<Rightarrow> subscription_interval r | Some v \<Rightarrow> Some v),
       subscription_type :=
         (case subscription_type kwargs of None \<Rightarrow> subscription_type r | Some v \<Rightarrow> Some v),
       happened_at :=
         (if happened_at r < happened_at kwargs then happened_at kwargs else happened_at r)\<rparr>"

text \<open>
  \<open>insert(**kwargs).on_conflict(action='update', ...)\<close>: a row with the key of
  \<open>kwargs\<close> is updated in place, otherwise \<open>kwargs\<close> is inserted.
\<close>

definition add :: "table \<Rightarrow> SubscriptionActivity \<Rightarrow> table" where
  "add db kwargs =
     (if unique_key kwargs \<in> unique_key ` set db
      then map (\<lambda>r. if unique_key r = unique_key kwargs then on_conflict_update r kwargs else r) db
      else db @ [kwargs])"

text \<open>Ingesting a batch: one \<open>add\<close> per record, in order.\<close>

definition add_all :: "table \<Rightarrow> SubscriptionActivity list \<Rightarrow> table" where
  "add_all db batch = foldl add db batch"

text \<open>The stored row of a key and its \<open>happened_at\<close>.\<close>

definition stored :: "table \<Rightarrow> SubscriptionActivityType \<times> string \<times> date \<Rightarrow> SubscriptionActivity option" where
  "stored db k = find (\<lambda>r. unique_key r = k) db"

definition stored_happened_at :: "table \<Rightarrow> SubscriptionActivityType \<times> string \<times> date \<Rightarrow> datetime option" where
  "stored_happened_at db k = map_option happened_at (stored db k)"

subsection \<open>\<open>SubscriptionActivity.mark_trials\<close>\<close>






subsection \<open>The point-in-time queries\<close>

text \<open>
  \<open>listing\<close>: the subquery \<open>latest\<close> has, for each account with a row up to the date, the
  greatest \<open>happened_at\<close> of those rows; the join keeps the rows of the table that carry
  their account's greatest \<open>happened_at\<close>.
\<close>

definition latest_at :: "table \<Rightarrow> date \<Rightarrow> string \<Rightarrow> datetime option" where
  "latest_at db date a =
     (case filter (\<lambda>r. account_id r = a \<and> happened_on r \<le> date) db of
        [] \<Rightarrow> None
      | r # rs \<Rightarrow> Some (fold max (map happened_at rs) (happened_at r)))"

definition listing :: "table \<Rightarrow> date \<Rightarrow> SubscriptionActivity list" where
  "listing db date = filter (\<lambda>r. latest_at db date (account_id r) = Some (happened_at r)) db"

definition active_listing :: "table \<Rightarrow> date \<Rightarrow> SubscriptionActivity list" where
  "active_listing db date = filter (\<lambda>r. type r \<noteq> DEACTIVATION) (listing db date)"

definition active_count :: "table \<Rightarrow> date \<Rightarrow> nat" where
  "active_count db date = length (active_listing db date)"

definition active_individuals_count :: "table \<Rightarrow> date \<Rightarrow> error + nat option" where
  "active_individuals_count =
     uses_data_from_subscriptions None
       (\<lambda>db date. Inr (length (filter (\<lambda>r. subscription_type r = Some INDIVIDUAL)
                                 (active_listing db date))))"

definition active_individuals_yearly_count :: "table \<Rightarrow> date \<Rightarrow> error + nat option" where
  "active_individuals_yearly_count =
     uses_data_from_subscriptions None
       (\<lambda>db date. Inr (length (filter (\<lambda>r. subscription_type r = Some INDIVIDUAL
                                           \<and> subscription_interval r = Some YEAR)
                                 (active_listing db date))))"

text \<open>The \<open>.value\<close> of a \<open>SubscriptionType\<close> member, and the members in definition order.\<close>

fun subscription_type_value :: "SubscriptionType \<Rightarrow> string" where
  "subscription_type_value FREE = ''free''"
| "subscription_type_value FINAID = ''finaid''"
| "subscription_type_value INDIVIDUAL = ''individual''"
| "subscription_type_value TRIAL = ''trial''"
| "subscription_type_value PARTNER = ''partner''"
| "subscription_type_value STUDENT = ''student''"

definition subscription_types :: "SubscriptionType list" where
  "subscription_types = [FREE, FINAID, INDIVIDUAL, TRIAL, PARTNER, STUDENT]"

text \<open>
  The undecorated body of \<open>active_subscription_type_breakdown\<close>. \<open>None in counter\<close> holds
  when some listed activity has no subscription type. The dict is an association list.
\<close>

definition subscription_type_breakdown :: "table \<Rightarrow> date \<Rightarrow> error + (string \<times> nat) list" where
  "subscription_type_breakdown db date =
     (let counted = map subscription_type (active_listing db date)
      in if None \<in> set counted then Inl ValueError
         else Inr (map (\<lambda>t. (subscription_type_value t, count_list counted (Some t)))
                     subscription_types))"

definition active_subscription_type_breakdown ::
  "table \<Rightarrow> date \<Rightarrow> error + (string \<times> nat) list option" where
  "active_subscription_type_breakdown =
     uses_data_from_subscriptions (Some (\<lambda>u. [])) subscription_type_breakdown"

definition active_women_count :: "table \<Rightarrow> date \<Rightarrow> nat" where
  "active_women_count db date =
     length (filter (\<lambda>r. account_has_feminine_name r = True) (active_listing db date))"

text \<open>
  \<open>active_women_ptc\<close>. The expression \<open>math.ceil((women / count) * 100)\<close> divides and
  multiplies in double-precision floating point before it takes the ceiling;
  \<open>ceil_percent women count\<close> stands for its value when \<open>count\<close> is not zero. With
  \<open>count\<close> zero the division raises \<open>ZeroDivisionError\<close>.
\<close>

definition percent :: "(nat \<Rightarrow> nat \<Rightarrow> int) \<Rightarrow> nat \<Rightarrow> nat \<Rightarrow> error + int" where
  "percent ceil_percent women count =
     (if count = 0 then Inl ZeroDivisionError else Inr (ceil_percent women count))"

definition active_women_ptc :: "(nat \<Rightarrow> nat \<Rightarrow> int) \<Rightarrow> table \<Rightarrow> date \<Rightarrow> error + int" where
  "active_women_ptc ceil_percent db date =
     (let count = active_count db date
      in if count \<noteq> 0 then percent ceil_percent (active_women_count db date) count
         else Inr 0)"

text \<open>
  \<open>signups\<close> with the conditions \<open>extra\<close> that a caller adds to its \<open>WHERE\<close>: the rows up
  to the end of the month are grouped by account, each group gives its least
  \<open>happened_at\<close>, and \<open>HAVING\<close> reads \<open>happened_on\<close> from the row that holds it (the
  first such row here; SQLite does not say which on a tie).
\<close>

fun earliest :: "SubscriptionActivity list \<Rightarrow> SubscriptionActivity option" where
  "earliest [] = None"
| "earliest (r # rs) =
     (case earliest rs of
        None \<Rightarrow> Some r
      | Some m \<Rightarrow> if happened_at r \<le> happened_at m then Some r else Some m)"

definition signups :: "(SubscriptionActivity \<Rightarrow> bool) \<Rightarrow> table \<Rightarrow> date \<Rightarrow> datetime list" where
  "signups extra db date =
     (case month_range date of
        (from_date, to_date) \<Rightarrow>
          (let rows = filter (\<lambda>r. happened_on r \<le> to_date \<and> extra r) db
           in concat (map (\<lambda>a.
                (case earliest (filter (\<lambda>r. account_id r = a) rows) of
                   None \<Rightarrow> []
                 | Some m \<Rightarrow> if from_date \<le> happened_on m then [happened_at m] else []))
                (remdups (map account_id rows)))))"

definition signups_count :: "table \<Rightarrow> date \<Rightarrow> nat" where
  "signups_count db date = length (signups (\<lambda>r. True) db date)"

definition individuals_signups_count :: "table \<Rightarrow> date \<Rightarrow> error + nat option" where
  "individuals_signups_count =
     uses_data_from_subscriptions None
       (\<lambda>db date. Inr (length (signups (\<lambda>r. subscription_type r = Some INDIVIDUAL) db date)))"

section \<open>Invariants and example inputs\<close>

text \<open>
  What the loops of \<open>get_nodes\<close> keep true: every node seen was either yielded or counted
  as a duplicate, the yielded nodes have pairwise different identities, and
  \<open>seen_node_ids\<close> is the set of those identities.
\<close>

definition gn_inv :: "(json \<Rightarrow> string) \<Rightarrow> gn_state \<Rightarrow> bool" where
  "gn_inv hash_data st \<longleftrightarrow>
     nodes_count st = int (length (yielded st)) + duplicates_count st \<and>
     0 \<le> duplicates_count st \<and>
     distinct (map (node_identity hash_data) (yielded st)) \<and>
     node_identity hash_data ` set (yielded st) = Inr ` seen_node_ids st"

text \<open>Nodes with an \<open>id\<close>, and a stand-in for \<open>hash_data\<close>, which they never reach.\<close>

definition node_with_id :: "string \<Rightarrow> node" where
  "node_with_id i = [(''id'', JStr i)]"

definition hash_stub :: "json \<Rightarrow> string" where
  "hash_stub j = ''sha256''"

text \<open>
  A server with two pages that declare three nodes: the first page holds \<open>a\<close>, \<open>b\<close> and
  \<open>a\<close> again, the second holds \<open>c\<close>.
\<close>

definition two_pages :: "node \<Rightarrow> node \<Rightarrow> node \<Rightarrow> 's \<Rightarrow> string \<Rightarrow> (error + collection) \<times> 's" where
  "two_pages a b c s cursor =
     (if cursor = '''' then
        (Inr \<lparr>totalCount = 3, pageInfo = \<lparr>hasNextPage = True, endCursor = Some ''p2''\<rparr>,
              edges = [a, b, a]\<rparr>, s)
      else
        (Inr \<lparr>totalCount = 3, pageInfo = \<lparr>hasNextPage = False, endCursor = None\<rparr>,
              edges = [c]\<rparr>, s))"

text \<open>A server with a single, last page.\<close>

definition one_page :: "int \<Rightarrow> node list \<Rightarrow> 's \<Rightarrow> string \<Rightarrow> (error + collection) \<times> 's" where
  "one_page n ns s cursor =
     (Inr \<lparr>totalCount = n, pageInfo = \<lparr>hasNextPage = False, endCursor = None\<rparr>,
           edges = ns\<rparr>, s)"

text \<open>
  A list of requests is paged when each request but the last returned a page with
  \<open>hasNextPage\<close> true and an \<open>endCursor\<close> that is not null, which is the cursor of the next
  request, and the last request raised or returned a page without these.
\<close>

definition paged :: "('r \<Rightarrow> page_info) \<Rightarrow> (string \<times> (error + 'r)) list \<Rightarrow> error option \<Rightarrow> bool" where
  "paged gpi trace err \<longleftrightarrow>
     (\<forall>n<length trace. case snd (trace ! n) of
              Inl e \<Rightarrow> Suc n = length trace \<and> err = Some e
            | Inr result \<Rightarrow>
                if hasNextPage (gpi result) \<and> endCursor (gpi result) \<noteq> None
                then Suc n < length trace
                   \<and> endCursor (gpi result) = Some (fst (trace ! Suc n))
                else Suc n = length trace)"

text \<open>A server whose page says there is a next page and gives a null cursor.\<close>

definition null_cursor_page :: collection where
  "null_cursor_page =
     \<lparr>totalCount = 0, pageInfo = \<lparr>hasNextPage = True, endCursor = None\<rparr>, edges = []\<rparr>"

definition null_cursor_server :: "unit \<Rightarrow> string \<Rightarrow> (error + collection) \<times> unit" where
  "null_cursor_server s cursor = (Inr null_cursor_page, s)"

text \<open>
  What one poll gave: not ready is what the loop swallows (an \<open>HTTPError\<close> raised by the
  request, or a response that \<open>raise_for_status\<close> rejects), ready is a response it
  accepts. \<open>polls url k\<close> are the events of \<open>k\<close> attempts.
\<close>

definition not_ready :: "error + response \<Rightarrow> bool" where
  "not_ready x =
     (case x of Inl e \<Rightarrow> e = HTTPError
      | Inr r \<Rightarrow> 400 \<le> status_code r \<and> status_code r < 600)"

definition ready :: "error + response \<Rightarrow> bool" where
  "ready x =
     (case x of Inl e \<Rightarrow> False
      | Inr r \<Rightarrow> \<not> (400 \<le> status_code r \<and> status_code r < 600))"

definition polls :: "string \<Rightarrow> nat \<Rightarrow> event list" where
  "polls download_url k = concat (replicate k [Sleep 5, Get download_url])"

text \<open>
  Three download servers: one answers 404 to the first three polls and 200 to the
  fourth, one answers 404 to the first nine polls and 200 to the tenth, one always
  answers 404.
\<close>

definition not_found :: response where
  "not_found = \<lparr>status_code = 404, content = '''', location = None\<rparr>"

definition csv_ok :: response where
  "csv_ok = \<lparr>status_code = 200, content = ''id,email'', location = None\<rparr>"

definition fourth_poll_server :: "nat \<Rightarrow> error + response" where
  "fourth_poll_server attempt_no = (if attempt_no < 4 then Inr not_found else Inr csv_ok)"

definition tenth_poll_server :: "nat \<Rightarrow> error + response" where
  "tenth_poll_server attempt_no = (if attempt_no < 10 then Inr not_found else Inr csv_ok)"

definition dead_server :: "nat \<Rightarrow> error + response" where
  "dead_server attempt_no = Inr not_found"

text \<open>
  A client whose injected cache holds no entry yet, a GraphQL transport that always
  answers, an export endpoint that redirects to the export, and a download server that
  is ready at the first poll.
\<close>

definition empty_cache_client :: "string client" where
  "empty_cache_client = \<lparr>cache = Some [], clear_cache = False, evictions = [], events = []\<rparr>"

definition const_transport :: "string \<Rightarrow> json \<Rightarrow> error + string" where
  "const_transport query variable_values = Inr ''result''"

definition export_server :: "string \<Rightarrow> error + response" where
  "export_server url =
     Inr \<lparr>status_code = 302, content = '''', location = Some ''/exports/1''\<rparr>"

definition first_poll_server :: "nat \<Rightarrow> error + response" where
  "first_poll_server attempt_no = Inr csv_ok"

text \<open>
  An \<open>order\<close> without subscription type, before the cutoff and after the cutoff month.
\<close>

definition legacy_order :: SubscriptionActivity where
  "legacy_order = \<lparr>type = ORDER, account_id = ''1'', account_has_feminine_name = False,
     happened_on = (2023, 1, 10), happened_at = 100, order_coupon = None,
     subscription_interval = None, subscription_type = None\<rparr>"

definition spring_order :: SubscriptionActivity where
  "spring_order = legacy_order\<lparr>happened_on := (2023, 3, 10)\<rparr>"





text \<open>
  The records of a batch that carry a key, and the \<open>happened_at\<close> a key has after one more
  record with time \<open>t\<close>.
\<close>

definition with_key :: "SubscriptionActivityType \<times> string \<times> date \<Rightarrow> SubscriptionActivity list \<Rightarrow> SubscriptionActivity list" where
  "with_key k batch = filter (\<lambda>x. unique_key x = k) batch"

definition later :: "datetime option \<Rightarrow> datetime \<Rightarrow> datetime option" where
  "later stored_at t = Some (case stored_at of None \<Rightarrow> t | Some s \<Rightarrow> max s t)"

text \<open>
  Two orders of one account on one day, read at different times with different coupons,
  a \<open>trial_end\<close> of the same day, and two batches that share the \<open>trial_end\<close>.
\<close>

definition order_march_a :: SubscriptionActivity where
  "order_march_a = \<lparr>type = ORDER, account_id = ''1'', account_has_feminine_name = False,
     happened_on = (2023, 3, 1), happened_at = 5, order_coupon = Some ''A'',
     subscription_interval = Some MONTH, subscription_type = Some INDIVIDUAL\<rparr>"

definition order_march_b :: SubscriptionActivity where
  "order_march_b = \<lparr>type = ORDER, account_id = ''1'', account_has_feminine_name = False,
     happened_on = (2023, 3, 1), happened_at = 6, order_coupon = Some ''B'',
     subscription_interval = None, subscription_type = Some INDIVIDUAL\<rparr>"

definition trial_end_march :: SubscriptionActivity where
  "trial_end_march = \<lparr>type = TRIAL_END, account_id = ''1'', account_has_feminine_name = False,
     happened_on = (2023, 3, 1), happened_at = 4, order_coupon = None,
     subscription_interval = None, subscription_type = None\<rparr>"

definition batch_one :: "SubscriptionActivity list" where
  "batch_one = [order_march_a, trial_end_march]"

definition batch_two :: "SubscriptionActivity list" where
  "batch_two = [trial_end_march, order_march_b]"

section \<open>Verified properties\<close>

subsection \<open>The deduplicating node stream\<close>

lemma gn_inv_init: "gn_inv h gn_init"
  by (simp add: gn_inv_def gn_init_def)

lemma process_edges_inv:
  "gn_inv h st \<Longrightarrow> process_edges h es st = (st', err) \<Longrightarrow>
     gn_inv h st' \<and> declared_count st' = declared_count st"
proof (induction es arbitrary: st)
  case Nil
  then show ?case by simp
next
  case (Cons node rest)
  show ?case
  proof (cases "node_identity h node")
    case (Inl e)
    with Cons.prems show ?thesis by simp
  next
    case (Inr node_id)
    let ?st1 = "if node_id \<in> seen_node_ids st
             then st\<lparr>duplicates_count := duplicates_count st + 1,
                     nodes_count := nodes_count st + 1\<rparr>
             else st\<lparr>yielded := yielded st @ [node],
                     seen_node_ids := insert node_id (seen_node_ids st),
                     nodes_count := nodes_count st + 1\<rparr>"
    have step: "process_edges h rest ?st1 = (st', err)"
      using Cons.prems(2) Inr by simp
    have inv1: "gn_inv h ?st1"
      using Cons.prems(1) Inr by (auto simp: gn_inv_def)
    have "declared_count ?st1 = declared_count st" by simp
    with Cons.IH [OF inv1 step] show ?thesis by simp
  qed
qed

lemma process_page_inv:
  "gn_inv h st \<Longrightarrow> process_page h result st = (st', err) \<Longrightarrow> gn_inv h st'"
proof -
  assume inv: "gn_inv h st" and pp: "process_page h result st = (st', err)"
  let ?st1 = "if declared_count st = None
              then st\<lparr>declared_count := Some (totalCount result)\<rparr> else st"
  have inv1: "gn_inv h ?st1" using inv by (simp add: gn_inv_def)
  show ?thesis
  proof (cases "declared_count ?st1 \<noteq> Some (totalCount result)")
    case True
    with pp have "st' = ?st1" by (simp add: process_page_def Let_def)
    with inv1 show ?thesis by simp
  next
    case False
    with pp have "process_edges h (edges result) ?st1 = (st', err)"
      by (simp add: process_page_def Let_def)
    from process_edges_inv [OF inv1 this] show ?thesis by simp
  qed
qed

lemma get_nodes_loop_inv:
  assumes "get_nodes_loop execute h st cursor s = Some out"
  shows "gn_inv h st \<longrightarrow>
           gn_inv h (fst out) \<and> (fst (snd out) = None \<longrightarrow> after_pages (fst out) = None)"
  using assms
proof (induct execute h st cursor s out rule: get_nodes_loop.raw_induct [rotated 1, consumes 1])
  case (1 loop execute h st cursor s out)
  show ?case
  proof
    assume inv: "gn_inv h st"
    show "gn_inv h (fst out) \<and> (fst (snd out) = None \<longrightarrow> after_pages (fst out) = None)"
    proof (cases "query_next execute pageInfo cursor s")
      case Stop
      with 1(2) inv show ?thesis by auto
    next
      case (Raise c0 e s')
      with 1(2) inv show ?thesis by auto
    next
      case (Yield c0 result cursor' s')
      obtain st1 err1 where pp: "process_page h result st = (st1, err1)"
        by (cases "process_page h result st")
      have inv1: "gn_inv h st1" using process_page_inv [OF inv pp] .
      show ?thesis
      proof (cases err1)
        case None
        with 1(2) Yield pp have "loop execute h st1 cursor' s' = Some out" by simp
        from 1(1) [OF this] inv1 show ?thesis by simp
      next
        case (Some e)
        with 1(2) Yield pp inv1 show ?thesis by auto
      qed
    qed
  qed
qed

lemma get_nodes_two_pages:
  assumes "node_identity h a = Inr ia" "node_identity h b = Inr ib" "node_identity h c = Inr ic"
    and "ia \<noteq> ib" "ia \<noteq> ic" "ib \<noteq> ic"
  shows "get_nodes (two_pages a b c) h s =
           Some (\<lparr>declared_count = Some 3, nodes_count = 4, duplicates_count = 1,
                   seen_node_ids = {ia, ib, ic}, yielded = [a, b, c]\<rparr>,
                 Some AssertionError, s)"
  using assms
  by (simp add: get_nodes_def get_nodes_loop.simps query_next_def two_pages_def
      process_page_def gn_init_def after_pages_def insert_commute)

lemma get_nodes_one_page:
  "get_nodes (one_page n [node_with_id ''A'', node_with_id ''B'']) hash_stub s =
     Some (\<lparr>declared_count = Some n, nodes_count = 2, duplicates_count = 0,
             seen_node_ids = {IdStr ''A'', IdStr ''B''},
             yielded = [node_with_id ''A'', node_with_id ''B'']\<rparr>,
           (if n = 2 then None else Some AssertionError), s)"
  by (simp add: get_nodes_def get_nodes_loop.simps query_next_def one_page_def
      process_page_def gn_init_def after_pages_def node_identity_def node_with_id_def
      insert_commute)

text \<open>
  C1, as the code has it. In every drain of \<open>get_nodes\<close> that comes to an end, no two
  yielded nodes have the same identity; when the drain ends without an exception the
  duplicate counter is zero and the number of yielded nodes is the declared
  \<open>totalCount\<close>; and a duplicate counter above zero always ends in an exception.
\<close>

theorem get_nodes_dedup:
  assumes "get_nodes execute hash_data s = Some (st, err, s')"
  shows "distinct (map (node_identity hash_data) (yielded st))
       \<and> (err = None \<longrightarrow>
            duplicates_count st = 0 \<and> declared_count st = Some (int (length (yielded st))))
       \<and> (0 < duplicates_count st \<longrightarrow> err \<noteq> None)"
proof -
  from assms have "get_nodes_loop execute hash_data gn_init (Some '''') s = Some (st, err, s')"
    by (simp add: get_nodes_def)
  from get_nodes_loop_inv [OF this] gn_inv_init
  have inv: "gn_inv hash_data st" and fin: "err = None \<longrightarrow> after_pages st = None"
    by simp_all
  show ?thesis
    using inv fin by (auto simp: gn_inv_def after_pages_def split: if_splits)
qed

theorem get_nodes_dedup_witness:
  "get_nodes (one_page 2 [node_with_id ''A'', node_with_id ''B'']) hash_stub () =
     Some (\<lparr>declared_count = Some 2, nodes_count = 2, duplicates_count = 0,
             seen_node_ids = {IdStr ''A'', IdStr ''B''},
             yielded = [node_with_id ''A'', node_with_id ''B'']\<rparr>, None, ())
   \<and> distinct (map (node_identity hash_stub) [node_with_id ''A'', node_with_id ''B''])
   \<and> Some (2::int) = Some (int (length [node_with_id ''A'', node_with_id ''B'']))
   \<and> get_nodes (two_pages (node_with_id ''A'') (node_with_id ''B'') (node_with_id ''C''))
        hash_stub () =
     Some (\<lparr>declared_count = Some 3, nodes_count = 4, duplicates_count = 1,
             seen_node_ids = {IdStr ''A'', IdStr ''B'', IdStr ''C''},
             yielded = [node_with_id ''A'', node_with_id ''B'', node_with_id ''C'']\<rparr>,
           Some AssertionError, ())
   \<and> distinct (map (node_identity hash_stub)
         [node_with_id ''A'', node_with_id ''B'', node_with_id ''C''])"
proof -
  have one: "get_nodes (one_page 2 [node_with_id ''A'', node_with_id ''B'']) hash_stub () =
     Some (\<lparr>declared_count = Some 2, nodes_count = 2, duplicates_count = 0,
             seen_node_ids = {IdStr ''A'', IdStr ''B''},
             yielded = [node_with_id ''A'', node_with_id ''B'']\<rparr>, None, ())"
    using get_nodes_one_page [of 2 "()"] by simp
  have two: "get_nodes (two_pages (node_with_id ''A'') (node_with_id ''B'') (node_with_id ''C''))
        hash_stub () =
     Some (\<lparr>declared_count = Some 3, nodes_count = 4, duplicates_count = 1,
             seen_node_ids = {IdStr ''A'', IdStr ''B'', IdStr ''C''},
             yielded = [node_with_id ''A'', node_with_id ''B'', node_with_id ''C'']\<rparr>,
           Some AssertionError, ())"
    by (rule get_nodes_two_pages) (simp_all add: node_identity_def node_with_id_def)
  from get_nodes_dedup [OF one] get_nodes_dedup [OF two] one two
  show ?thesis by simp
qed

text \<open>
  C1 as stated fails: one page declares three nodes and holds two. The duplicate counter
  is zero, two nodes were yielded, three were declared.
\<close>

theorem get_nodes_zero_duplicates_counterexample:
  "get_nodes (one_page 3 [node_with_id ''A'', node_with_id ''B'']) hash_stub () =
     Some (\<lparr>declared_count = Some 3, nodes_count = 2, duplicates_count = 0,
             seen_node_ids = {IdStr ''A'', IdStr ''B''},
             yielded = [node_with_id ''A'', node_with_id ''B'']\<rparr>,
           Some AssertionError, ())
   \<and> int (length [node_with_id ''A'', node_with_id ''B'']) \<noteq> 3"
  using get_nodes_one_page [of 3 "()"] by simp

text \<open>
  C7, as the code has it. Two pages declare three nodes; the first holds \<open>a\<close>, \<open>b\<close> and
  \<open>a\<close> again, the second holds \<open>c\<close>, and the three identities differ. The stream yields
  \<open>a\<close>, \<open>b\<close>, \<open>c\<close>, the duplicate counter ends at one, and the assertions after the last
  page raise \<open>AssertionError\<close>.
\<close>

theorem get_nodes_duplicate_scenario:
  assumes "node_identity hash_data a = Inr ia"
    and "node_identity hash_data b = Inr ib"
    and "node_identity hash_data c = Inr ic"
    and "ia \<noteq> ib" and "ia \<noteq> ic" and "ib \<noteq> ic"
  shows "\<exists>st. get_nodes (two_pages a b c) hash_data s = Some (st, Some AssertionError, s)
            \<and> yielded st = [a, b, c] \<and> duplicates_count st = 1
            \<and> declared_count st = Some 3"
  using get_nodes_two_pages [OF assms, of s] by simp

theorem get_nodes_duplicate_scenario_witness:
  "\<exists>st. get_nodes (two_pages (node_with_id ''A'') (node_with_id ''B'') (node_with_id ''C''))
           hash_stub () = Some (st, Some AssertionError, ())
         \<and> yielded st = [node_with_id ''A'', node_with_id ''B'', node_with_id ''C'']
         \<and> duplicates_count st = 1 \<and> declared_count st = Some 3"
  by (rule get_nodes_duplicate_scenario [where ia = "IdStr ''A''" and ib = "IdStr ''B''"
        and ic = "IdStr ''C''"])
     (simp_all add: node_identity_def node_with_id_def)

text \<open>C7 as stated fails: in its scenario the drain ends in an exception.\<close>

theorem get_nodes_duplicate_scenario_counterexample:
  "map_option (fst \<circ> snd)
     (get_nodes (two_pages (node_with_id ''A'') (node_with_id ''B'') (node_with_id ''C''))
        hash_stub ()) = Some (Some AssertionError)"
  by (simp add: get_nodes_two_pages [where ia = "IdStr ''A''" and ib = "IdStr ''B''"
        and ic = "IdStr ''C''"] node_identity_def node_with_id_def)

subsection \<open>Pagination\<close>

lemma paged_Nil: "paged gpi [] err"
  by (simp add: paged_def)

lemma paged_Raise: "paged gpi [(c, Inl e)] (Some e)"
  by (simp add: paged_def)

lemma paged_Yield:
  assumes "paged gpi tr err"
    and "if hasNextPage (gpi result) \<and> endCursor (gpi result) \<noteq> None
         then tr \<noteq> [] \<and> endCursor (gpi result) = Some (fst (hd tr)) else tr = []"
  shows "paged gpi ((c, Inr result) # tr) err"
  unfolding paged_def
proof (intro allI impI)
  fix n assume n: "n < length ((c, Inr result) # tr)"
  show "case snd (((c, Inr result) # tr) ! n) of
              Inl e \<Rightarrow> Suc n = length ((c, Inr result) # tr) \<and> err = Some e
            | Inr result' \<Rightarrow>
                if hasNextPage (gpi result') \<and> endCursor (gpi result') \<noteq> None
                then Suc n < length ((c, Inr result) # tr)
                   \<and> endCursor (gpi result') = Some (fst (((c, Inr result) # tr) ! Suc n))
                else Suc n = length ((c, Inr result) # tr)"
  proof (cases n)
    case 0
    with assms(2) show ?thesis by (auto simp: hd_conv_nth split: if_splits)
  next
    case (Suc m)
    with n have "m < length tr" by simp
    with assms(1) have "case snd (tr ! m) of
              Inl e \<Rightarrow> Suc m = length tr \<and> err = Some e
            | Inr result \<Rightarrow>
                if hasNextPage (gpi result) \<and> endCursor (gpi result) \<noteq> None
                then Suc m < length tr
                   \<and> endCursor (gpi result) = Some (fst (tr ! Suc m))
                else Suc m = length tr"
      unfolding paged_def by blast
    with Suc show ?thesis by (auto split: sum.splits if_splits)
  qed
qed

lemma query_drain_trace:
  assumes "query_drain execute gpi cursor s = Some out"
  shows "(cursor = None \<longrightarrow> fst out = [])
       \<and> (\<forall>c. cursor = Some c \<longrightarrow> fst out \<noteq> [] \<and> fst (hd (fst out)) = c)
       \<and> paged gpi (fst out) (fst (snd out))"
  using assms
proof (induct execute gpi cursor s out rule: query_drain.raw_induct [rotated 1, consumes 1])
  case (1 drain execute gpi cursor s out)
  show ?case
  proof (cases "query_next execute gpi cursor s")
    case Stop
    then have "cursor = None"
      by (auto simp: query_next_def split: option.splits sum.splits prod.splits)
    with 1(2) Stop show ?thesis by (auto simp: paged_Nil)
  next
    case (Raise c0 e s')
    then have "cursor = Some c0"
      by (auto simp: query_next_def split: option.splits sum.splits prod.splits)
    with 1(2) Raise show ?thesis by (auto simp: paged_Raise)
  next
    case (Yield c0 result cursor' s')
    then obtain c where c: "cursor = Some c" and c0: "c0 = c"
      and c': "cursor' = (if hasNextPage (gpi result) then endCursor (gpi result) else None)"
      by (auto simp: query_next_def split: option.splits sum.splits prod.splits)
    from 1(2) Yield obtain tr err s'' where
      rest: "drain execute gpi cursor' s' = Some (tr, err, s'')"
      and out: "out = ((c, Inr result) # tr, err, s'')"
      using c c0 by (auto simp: bind_eq_Some_conv)
    from 1(1) [OF rest]
    have h1: "cursor' = None \<longrightarrow> tr = []"
      and h2: "\<forall>c. cursor' = Some c \<longrightarrow> tr \<noteq> [] \<and> fst (hd tr) = c"
      and h3: "paged gpi tr err"
      by simp_all
    have "if hasNextPage (gpi result) \<and> endCursor (gpi result) \<noteq> None
         then tr \<noteq> [] \<and> endCursor (gpi result) = Some (fst (hd tr)) else tr = []"
      using h1 h2 c' by (auto split: if_splits)
    from paged_Yield [OF h3 this] show ?thesis
      by (simp add: out c)
  qed
qed

lemma query_drain_returns:
  "fst ((query_turn execute gpi ^^ n) (cursor, s)) = None \<Longrightarrow>
     query_drain execute gpi cursor s \<noteq> None"
proof (induction n arbitrary: cursor s)
  case 0
  then show ?case by (subst query_drain.simps) (simp add: query_next_def)
next
  case (Suc n)
  show ?case
  proof (cases "query_next execute gpi cursor s")
    case Stop
    then show ?thesis by (subst query_drain.simps) simp
  next
    case (Raise c0 e s')
    then show ?thesis by (subst query_drain.simps) simp
  next
    case (Yield c0 result cursor' s')
    then have "query_turn execute gpi (cursor, s) = (cursor', s')"
      by (simp add: query_turn_def)
    with Suc.prems have "fst ((query_turn execute gpi ^^ n) (cursor', s')) = None"
      by (simp add: funpow_swap1)
    from Suc.IH [OF this] obtain y where "query_drain execute gpi cursor' s' = Some y" by auto
    with Yield show ?thesis
      by (subst query_drain.simps) (simp split: prod.splits)
  qed
qed

lemma query_drain_turns:
  assumes "query_drain execute gpi cursor s = Some out"
  shows "\<exists>n. fst ((query_turn execute gpi ^^ n) (cursor, s)) = None"
  using assms
proof (induct execute gpi cursor s out rule: query_drain.raw_induct [rotated 1, consumes 1])
  case (1 drain execute gpi cursor s out)
  show ?case
  proof (cases "query_next execute gpi cursor s")
    case Stop
    then have "fst ((query_turn execute gpi ^^ 1) (cursor, s)) = None"
      by (simp add: query_turn_def)
    then show ?thesis by blast
  next
    case (Raise c0 e s')
    then have "fst ((query_turn execute gpi ^^ 1) (cursor, s)) = None"
      by (simp add: query_turn_def)
    then show ?thesis by blast
  next
    case (Yield c0 result cursor' s')
    with 1(2) obtain y where "drain execute gpi cursor' s' = Some y"
      by (auto simp: bind_eq_Some_conv)
    from 1(1) [OF this] obtain n where
      "fst ((query_turn execute gpi ^^ n) (cursor', s')) = None" by blast
    moreover have "query_turn execute gpi (cursor, s) = (cursor', s')"
      using Yield by (simp add: query_turn_def)
    ultimately have "fst ((query_turn execute gpi ^^ Suc n) (cursor, s)) = None"
      by (simp add: funpow_swap1)
    then show ?thesis by blast
  qed
qed

text \<open>
  C4, as the code has it. The drain of \<open>_query\<close> comes to an end exactly when the loop
  variable \<open>cursor\<close> becomes \<open>None\<close> after some number of turns. When it does, the first
  request carries the empty cursor; a request that returned a page with \<open>hasNextPage\<close>
  true and an \<open>endCursor\<close> that is not null is followed by a request with that
  \<open>endCursor\<close>; a request that returned any other page, or raised, is the last one.
\<close>

theorem query_pagination:
  "(query_pages execute gpi s \<noteq> None \<longleftrightarrow> (\<exists>n. fst (query_after execute gpi n s) = None))
   \<and> (\<forall>trace err s'. query_pages execute gpi s = Some (trace, err, s') \<longrightarrow>
        trace \<noteq> [] \<and> fst (hd trace) = ''''
        \<and> (\<forall>n<length trace. case snd (trace ! n) of
              Inl e \<Rightarrow> Suc n = length trace \<and> err = Some e
            | Inr result \<Rightarrow>
                if hasNextPage (gpi result) \<and> endCursor (gpi result) \<noteq> None
                then Suc n < length trace
                   \<and> endCursor (gpi result) = Some (fst (trace ! Suc n))
                else Suc n = length trace))"
proof (intro conjI allI impI)
  show "query_pages execute gpi s \<noteq> None \<longleftrightarrow> (\<exists>n. fst (query_after execute gpi n s) = None)"
    unfolding query_pages_def query_after_def
    using query_drain_returns [where execute = execute and gpi = gpi and cursor = "Some ''''" and s = s]
      query_drain_turns [of execute gpi "Some ''''" s] by blast
next
  fix trace err s'
  assume "query_pages execute gpi s = Some (trace, err, s')"
  then have d: "query_drain execute gpi (Some '''') s = Some (trace, err, s')"
    by (simp add: query_pages_def)
  from query_drain_trace [OF d]
  have t1: "trace \<noteq> []" and t2: "fst (hd trace) = ''''" and t3: "paged gpi trace err"
    by simp_all
  from t1 show "trace \<noteq> []" .
  from t2 show "fst (hd trace) = ''''" .
  fix n assume "n < length trace"
  with t3 show "case snd (trace ! n) of
              Inl e \<Rightarrow> Suc n = length trace \<and> err = Some e
            | Inr result \<Rightarrow>
                if hasNextPage (gpi result) \<and> endCursor (gpi result) \<noteq> None
                then Suc n < length trace
                   \<and> endCursor (gpi result) = Some (fst (trace ! Suc n))
                else Suc n = length trace" unfolding paged_def by blast
qed

lemma query_pages_two_pages:
  "query_pages (two_pages a b c) pageInfo () =
     Some ([('''', Inr \<lparr>totalCount = 3,
                         pageInfo = \<lparr>hasNextPage = True, endCursor = Some ''p2''\<rparr>,
                         edges = [a, b, a]\<rparr>),
            (''p2'', Inr \<lparr>totalCount = 3,
                           pageInfo = \<lparr>hasNextPage = False, endCursor = None\<rparr>,
                           edges = [c]\<rparr>)], None, ())"
  by (simp add: query_pages_def query_drain.simps query_next_def two_pages_def)

theorem query_pagination_witness:
  "(\<exists>n. fst (query_after (two_pages (node_with_id ''A'') (node_with_id ''B'')
                            (node_with_id ''C'')) pageInfo n ()) = None)
   \<and> (\<exists>trace. query_pages (two_pages (node_with_id ''A'') (node_with_id ''B'')
                             (node_with_id ''C'')) pageInfo () = Some (trace, None, ())
         \<and> length trace = 2 \<and> fst (hd trace) = '''' \<and> fst (trace ! 1) = ''p2'')"
  using query_pagination [of "two_pages (node_with_id ''A'') (node_with_id ''B'')
      (node_with_id ''C'')" pageInfo "()"]
    query_pages_two_pages [of "node_with_id ''A''" "node_with_id ''B''" "node_with_id ''C''"]
  by simp

text \<open>
  C4 as stated fails: the page has \<open>hasNextPage\<close> true and a null \<open>endCursor\<close>, and the
  pagination stops after it.
\<close>

theorem query_null_cursor_counterexample:
  "query_pages null_cursor_server pageInfo () = Some ([('''', Inr null_cursor_page)], None, ())
   \<and> hasNextPage (pageInfo null_cursor_page)"
  by (simp add: query_pages_def query_drain.simps query_next_def null_cursor_server_def
      null_cursor_page_def)

subsection \<open>Polling the CSV export\<close>

lemma polls_Suc: "polls url (Suc k) = [Sleep 5, Get url] @ polls url k"
  by (simp add: polls_def)

lemma polls_add: "polls url (a + b) = polls url a @ polls url b"
  by (simp add: polls_def replicate_add)

lemma polling_not_ready:
  "\<forall>n\<in>set as. not_ready (g n) \<Longrightarrow>
     polling g url (as @ bs) evs = polling g url bs (evs @ polls url (length as))"
proof (induction as arbitrary: evs)
  case Nil
  then show ?case by (simp add: polls_def)
next
  case (Cons a as)
  then have a: "not_ready (g a)" and rest: "\<forall>n\<in>set as. not_ready (g n)" by simp_all
  from a have "polling g url ((a # as) @ bs) evs =
      polling g url (as @ bs) (evs @ [Sleep 5, Get url])"
    by (auto simp: not_ready_def raise_for_status_def DOWNLOAD_POLLING_WAIT_SEC_def
        split: sum.splits)
  also have "\<dots> = polling g url bs ((evs @ [Sleep 5, Get url]) @ polls url (length as))"
    using Cons.IH [OF rest] .
  finally show ?case by (simp add: polls_Suc)
qed

lemma polling_ready:
  "g a = Inr r \<Longrightarrow> ready (g a) \<Longrightarrow>
     polling g url (a # bs) evs = (Inr (Some r), evs @ polls url 1)"
  by (auto simp: ready_def raise_for_status_def polls_def DOWNLOAD_POLLING_WAIT_SEC_def)

text \<open>
  C6, as the code has it. Every attempt sleeps five seconds and then polls the download
  URL. When each of the nine attempts is not ready (an \<open>HTTPError\<close>, that is a response
  with a status from 400 to 599), the download fails with \<open>DownloadError\<close> after exactly
  nine attempts. When the attempts before the \<open>k\<close>-th are not ready and the \<open>k\<close>-th, one of
  the nine, is accepted, the download returns that response after exactly \<open>k\<close> attempts.
\<close>

theorem download_polling_budget:
  "((\<forall>n\<in>{1..9}. not_ready (http_get n)) \<longrightarrow>
      download_polling http_get url evs = (Inl DownloadError, evs @ polls url 9))
   \<and> (\<forall>k r. 1 \<le> k \<and> k \<le> 9 \<and> (\<forall>n\<in>{1..<k}. not_ready (http_get n))
          \<and> http_get k = Inr r \<and> ready (http_get k) \<longrightarrow>
          download_polling http_get url evs = (Inr r, evs @ polls url k))"
proof (intro conjI allI impI)
  assume "\<forall>n\<in>{1..9}. not_ready (http_get n)"
  then have "\<forall>n\<in>set [1..<10]. not_ready (http_get n)" by auto
  from polling_not_ready [OF this, of url "[]" evs]
  show "download_polling http_get url evs = (Inl DownloadError, evs @ polls url 9)"
    by (simp add: download_polling_def)
next
  fix k r
  assume h: "1 \<le> k \<and> k \<le> 9 \<and> (\<forall>n\<in>{1..<k}. not_ready (http_get n))
          \<and> http_get k = Inr r \<and> ready (http_get k)"
  then have "[1..<10] = [1..<k] @ [k..<10]"
    using upt_add_eq_append [of 1 k "10 - k"] by simp
  moreover have "[k..<10] = k # [Suc k..<10]"
    using h by (simp add: upt_conv_Cons)
  ultimately have split: "[1..<10] = [1..<k] @ k # [Suc k..<10]" by simp
  from h have nr: "\<forall>n\<in>set [1..<k]. not_ready (http_get n)" by auto
  have p1: "polling http_get url ([1..<k] @ k # [Suc k..<10]) evs =
      polling http_get url (k # [Suc k..<10]) (evs @ polls url (length [1..<k]))"
    using nr by (rule polling_not_ready)
  have p2: "polling http_get url (k # [Suc k..<10]) (evs @ polls url (length [1..<k])) =
      (Inr (Some r), (evs @ polls url (length [1..<k])) @ polls url 1)"
    using h by (intro polling_ready) auto
  have "polling http_get url [1..<10] evs =
      (Inr (Some r), (evs @ polls url (length [1..<k])) @ polls url 1)"
    by (simp only: split p1 p2)
  moreover have "polls url (length [1..<k]) @ polls url 1 = polls url k"
    using h polls_add [of url "k - 1" 1] by simp
  ultimately show "download_polling http_get url evs = (Inr r, evs @ polls url k)"
    by (simp add: download_polling_def)
qed

theorem download_polling_budget_witness:
  "download_polling dead_server ''/exports/1/download'' [] =
     (Inl DownloadError, polls ''/exports/1/download'' 9)
   \<and> download_polling fourth_poll_server ''/exports/1/download'' [] =
     (Inr csv_ok, polls ''/exports/1/download'' 4)"
proof -
  have dead: "\<forall>n\<in>{1..9}. not_ready (dead_server n)"
    by (simp add: not_ready_def dead_server_def not_found_def)
  have fourth: "1 \<le> (4::nat) \<and> (4::nat) \<le> 9
      \<and> (\<forall>n\<in>{1..<4}. not_ready (fourth_poll_server n))
      \<and> fourth_poll_server 4 = Inr csv_ok \<and> ready (fourth_poll_server 4)"
    by (simp add: not_ready_def ready_def fourth_poll_server_def not_found_def csv_ok_def)
  have a: "download_polling dead_server ''/exports/1/download'' [] =
     (Inl DownloadError, [] @ polls ''/exports/1/download'' 9)"
    using download_polling_budget [of dead_server "''/exports/1/download''" "[]"] dead
    by blast
  have b: "download_polling fourth_poll_server ''/exports/1/download'' [] =
     (Inr csv_ok, [] @ polls ''/exports/1/download'' 4)"
    using download_polling_budget [of fourth_poll_server "''/exports/1/download''" "[]"] fourth
    by blast
  from a b show ?thesis by simp
qed

text \<open>
  C6 as stated fails: the server is ready at the tenth poll, and the download fails with
  \<open>DownloadError\<close> after nine.
\<close>

theorem download_polling_tenth_counterexample:
  "download_polling tenth_poll_server ''/exports/1/download'' [] =
     (Inl DownloadError, polls ''/exports/1/download'' 9)
   \<and> ready (tenth_poll_server 10)"
  by (simp add: download_polling_def tenth_poll_server_def upt_conv_Cons raise_for_status_def
      polls_def ready_def not_found_def csv_ok_def DOWNLOAD_POLLING_WAIT_SEC_def
      eval_nat_numeral)

subsection \<open>The response cache\<close>

lemma cache_getitem_set: "cache_getitem (cache_set key v tag c) key = Some v"
  by (induction c) (auto simp: cache_getitem_def cache_set_def)

lemma cache_set_nonempty: "cache_set key v tag c \<noteq> []"
  by (simp add: cache_set_def)

text \<open>
  On a cache that holds an entry and with the clear flag down, the same fetch twice
  reaches the transport at most once and the second call returns what the first did.
\<close>

lemma execute_query_twice:
  assumes "cache st = Some c" and "c \<noteq> []" and "\<not> clear_cache st"
    and "transport query vars = Inr result"
    and "execute_query hash_data transport st query vars = (r1, st1)"
    and "execute_query hash_data transport st1 query vars = (r2, st2)"
  shows "\<exists>v. r1 = Inr v \<and> r2 = Inr v \<and> events st2 = events st1
           \<and> (events st1 = events st \<or> events st1 = events st @ [Execute query vars])"
  using assms
  by (auto simp: execute_query_def cache_lookup_def cache_save_def cache_truthy_def Let_def
      cache_getitem_set cache_set_nonempty split: option.splits prod.splits if_splits)

text \<open>A failed fetch leaves the cache as the lookup left it.\<close>

lemma execute_query_failure_keeps_cache:
  assumes "transport query vars = Inl e"
    and "execute_query hash_data transport st query vars = (Inl e', st')"
  shows "e' = e \<and> cache st' = cache (fst (cache_lookup api_cache_tag
            (hash_data (JObj [(''query'', JStr query), (''variable_values'', vars)])) st))"
  using assms
  by (auto simp: execute_query_def Let_def split: option.splits prod.splits)

text \<open>
  With a cache that holds an entry, a raised clear flag gives one eviction of the
  client's tag before the lookup and is lowered; a lowered flag changes nothing.
\<close>

lemma cache_lookup_clear:
  assumes "cache_truthy (cache st)" and "clear_cache st"
    and "cache_lookup tag key st = (st', hit)"
  shows "evictions st' = evictions st @ [tag] \<and> \<not> clear_cache st'
       \<and> cache st' = map_option (cache_evict tag) (cache st)"
  using assms by (auto simp: cache_lookup_def Let_def)

lemma cache_lookup_no_clear:
  assumes "\<not> clear_cache st" and "cache_lookup tag key st = (st', hit)"
  shows "st' = st"
  using assms by (auto simp: cache_lookup_def Let_def split: if_splits)

text \<open>
  C5 fails on the code. The injected cache is present and holds no entry, so
  \<open>if self.cache:\<close> is false: neither call looks the key up nor saves the result. The same
  GraphQL fetch issued twice reaches the transport twice, the same export downloaded
  twice is requested and polled twice, and the cache stays empty.
\<close>

theorem empty_cache_fetched_twice:
  "execute_query hash_stub const_transport empty_cache_client ''q'' (JObj []) =
     (Inr ''result'', empty_cache_client\<lparr>events := [Execute ''q'' (JObj [])]\<rparr>)
   \<and> execute_query hash_stub const_transport
        (empty_cache_client\<lparr>events := [Execute ''q'' (JObj [])]\<rparr>) ''q'' (JObj []) =
     (Inr ''result'',
      empty_cache_client\<lparr>events := [Execute ''q'' (JObj []), Execute ''q'' (JObj [])]\<rparr>)
   \<and> download_csv hash_stub export_server first_poll_server empty_cache_client
        ''/csv_exports?type=members'' =
     (Inr ''id,email'',
      empty_cache_client\<lparr>events := [Post ''/csv_exports?type=members'', Sleep 5,
                                    Get ''/exports/1/download'']\<rparr>)
   \<and> download_csv hash_stub export_server first_poll_server
        (empty_cache_client\<lparr>events := [Post ''/csv_exports?type=members'', Sleep 5,
                                      Get ''/exports/1/download'']\<rparr>)
        ''/csv_exports?type=members'' =
     (Inr ''id,email'',
      empty_cache_client\<lparr>events := [Post ''/csv_exports?type=members'', Sleep 5,
                                    Get ''/exports/1/download'',
                                    Post ''/csv_exports?type=members'', Sleep 5,
                                    Get ''/exports/1/download'']\<rparr>)"
  by (simp add: execute_query_def download_csv_def cache_lookup_def cache_save_def
      cache_truthy_def empty_cache_client_def const_transport_def export_server_def
      first_poll_server_def csv_ok_def download_polling_def upt_conv_Cons
      raise_for_status_def DOWNLOAD_POLLING_WAIT_SEC_def)

subsection \<open>The legacy cutoff\<close>

lemma feb_missing:
  assumes "date < LEGACY_PLANS_DELETED_ON \<or> (fst date = 2023 \<and> fst (snd date) = 2)"
  shows "is_missing_subscriptions_data date"
  using assms
  by (cases date)
     (auto simp: is_missing_subscriptions_data_def month_range_def LEGACY_PLANS_DELETED_ON_def)

text \<open>
  C9. For a date before 2023-02-24 or in February 2023, the three decorated counts return
  \<open>None\<close> and the breakdown returns the empty mapping; none raises.
\<close>

theorem legacy_dates_short_circuit:
  assumes "date < LEGACY_PLANS_DELETED_ON \<or> (fst date = 2023 \<and> fst (snd date) = 2)"
  shows "active_individuals_count db date = Inr None
       \<and> active_individuals_yearly_count db date = Inr None
       \<and> individuals_signups_count db date = Inr None
       \<and> active_subscription_type_breakdown db date = Inr (Some [])"
  using feb_missing [OF assms]
  by (simp add: active_individuals_count_def active_individuals_yearly_count_def
      individuals_signups_count_def active_subscription_type_breakdown_def
      uses_data_from_subscriptions_def)

theorem legacy_dates_short_circuit_witness:
  "(2023, 1, 15) < LEGACY_PLANS_DELETED_ON
   \<and> active_individuals_count [legacy_order] (2023, 1, 15) = Inr None
   \<and> active_individuals_yearly_count [legacy_order] (2023, 2, 27) = Inr None
   \<and> individuals_signups_count [legacy_order] (2023, 2, 27) = Inr None
   \<and> active_subscription_type_breakdown [legacy_order] (2023, 2, 27) = Inr (Some [])"
proof -
  have a: "(2023, 1, 15) < LEGACY_PLANS_DELETED_ON"
    by (simp add: LEGACY_PLANS_DELETED_ON_def)
  have b: "(2023, 2, 27) < LEGACY_PLANS_DELETED_ON
     \<or> (fst (2023::nat, 2::nat, 27::nat) = 2023 \<and> fst (snd (2023::nat, 2::nat, 27::nat)) = 2)"
    by simp
  from legacy_dates_short_circuit [OF disjI1 [OF a], of "[legacy_order]"]
    legacy_dates_short_circuit [OF b, of "[legacy_order]"] a
  show ?thesis by simp
qed

subsection \<open>The subscription type breakdown\<close>

lemma latest_at_Max:
  assumes "r \<in> set db" and "happened_on r \<le> date"
    and "\<forall>x\<in>set db. account_id x = account_id r \<and> happened_on x \<le> date
            \<longrightarrow> happened_at x \<le> happened_at r"
  shows "latest_at db date (account_id r) = Some (happened_at r)"
proof -
  let ?rows = "filter (\<lambda>x. account_id x = account_id r \<and> happened_on x \<le> date) db"
  have mem: "r \<in> set ?rows" using assms(1,2) by simp
  then obtain y ys where rows: "?rows = y # ys" by (cases ?rows) auto
  have "fold max (map happened_at ys) (happened_at y) = Max (set (happened_at y # map happened_at ys))"
    by (rule Max.set_eq_fold [symmetric])
  also have "\<dots> = Max (happened_at ` set ?rows)" by (simp add: rows)
  also have "\<dots> = happened_at r"
  proof (rule Max_eqI)
    show "finite (happened_at ` set ?rows)" by simp
    show "happened_at r \<in> happened_at ` set ?rows" using mem by blast
    fix t assume "t \<in> happened_at ` set ?rows"
    then show "t \<le> happened_at r" using assms(3) by auto
  qed
  finally show ?thesis by (simp add: latest_at_def rows)
qed

text \<open>
  C8, as the code has it. For a date that the decorator does not short-circuit, an
  activity that is the latest of its account up to the date, is not a deactivation and
  has no subscription type makes the breakdown raise \<open>ValueError\<close>.
\<close>

theorem null_subscription_type_raises:
  assumes "\<not> is_missing_subscriptions_data date"
    and "r \<in> set db" and "happened_on r \<le> date"
    and "\<forall>x\<in>set db. account_id x = account_id r \<and> happened_on x \<le> date
            \<longrightarrow> happened_at x \<le> happened_at r"
    and "type r \<noteq> DEACTIVATION" and "subscription_type r = None"
  shows "active_subscription_type_breakdown db date = Inl ValueError"
proof -
  have "r \<in> set (active_listing db date)"
    using latest_at_Max [OF assms(2-4)] assms(2,5)
    by (simp add: active_listing_def listing_def)
  then have "None \<in> set (map subscription_type (active_listing db date))"
    using assms(6) by force
  then show ?thesis
    using assms(1)
    by (simp add: active_subscription_type_breakdown_def uses_data_from_subscriptions_def
        subscription_type_breakdown_def Let_def)
qed

theorem null_subscription_type_raises_witness:
  "\<not> is_missing_subscriptions_data (2023, 3, 15)
   \<and> active_subscription_type_breakdown [spring_order] (2023, 3, 15) = Inl ValueError"
proof -
  have a: "\<not> is_missing_subscriptions_data (2023, 3, 15)"
    by (simp add: is_missing_subscriptions_data_def month_range_def LEGACY_PLANS_DELETED_ON_def)
  from null_subscription_type_raises [OF a, of spring_order "[spring_order]"] a
  show ?thesis by (simp add: spring_order_def legacy_order_def)
qed

text \<open>
  C8 as stated fails: before the cutoff the account's latest activity is an \<open>order\<close>
  without subscription type, and the breakdown returns the empty mapping.
\<close>

theorem null_subscription_type_legacy_counterexample: 
  "active_listing [legacy_order] (2023, 1, 15) = [legacy_order]
   \<and> subscription_type legacy_order = None
   \<and> active_subscription_type_breakdown [legacy_order] (2023, 1, 15) = Inr (Some [])"
  by (simp add: active_listing_def listing_def latest_at_def legacy_order_def
     active_subscription_type_breakdown_def uses_data_from_subscriptions_def
     is_missing_subscriptions_data_def LEGACY_PLANS_DELETED_ON_def)

subsection \<open>Trial reconciliation\<close>










subsection \<open>The ledger upsert\<close>

lemma key_update [simp]: "unique_key (on_conflict_update r kw) = unique_key r"
  by (simp add: on_conflict_update_def unique_key_def)

lemma update_assoc:
  "on_conflict_update (on_conflict_update a b) c = on_conflict_update a (on_conflict_update b c)"
  by (auto simp: on_conflict_update_def split: option.splits)

lemma update_idem: "on_conflict_update a a = a"
  by (simp add: on_conflict_update_def split: option.splits)

lemma key_merge [simp]: "unique_key (foldl on_conflict_update r ms) = unique_key r"
  by (induction ms arbitrary: r) simp_all

lemma merge_assoc:
  "foldl on_conflict_update (on_conflict_update a b) ms =
     on_conflict_update a (foldl on_conflict_update b ms)"
  by (induction ms arbitrary: b) (simp_all add: update_assoc)

lemma merge_absorb_stored:
  "foldl on_conflict_update (foldl on_conflict_update u ms) ms = foldl on_conflict_update u ms"
proof (cases ms)
  case Nil
  then show ?thesis by simp
next
  case (Cons m ms')
  let ?M = "foldl on_conflict_update m ms'"
  have "foldl on_conflict_update u ms = on_conflict_update u ?M"
    by (simp add: Cons merge_assoc)
  moreover have "foldl on_conflict_update (on_conflict_update u ?M) ms =
      on_conflict_update (on_conflict_update u ?M) ?M"
    by (simp add: Cons merge_assoc)
  ultimately show ?thesis by (simp add: update_assoc update_idem)
qed

lemma merge_absorb_new:
  "foldl on_conflict_update (foldl on_conflict_update k ms) (k # ms) =
     foldl on_conflict_update k ms"
  by (simp add: merge_assoc update_idem)

lemma keys_add: "unique_key ` set (add db x) = insert (unique_key x) (unique_key ` set db)"
proof (cases "unique_key x \<in> unique_key ` set db")
  case True
  have "add db x =
      map (\<lambda>r. if unique_key r = unique_key x then on_conflict_update r x else r) db"
    using True by (simp only: add_def if_True)
  then have "unique_key ` set (add db x) =
      (\<lambda>r. unique_key (if unique_key r = unique_key x then on_conflict_update r x else r)) ` set db"
    by (simp only: set_map image_image)
  also have "\<dots> = unique_key ` set db"
    by (rule image_cong) simp_all
  finally show ?thesis using True by (simp add: insert_absorb)
next
  case False
  then show ?thesis by (simp add: add_def)
qed

lemma keys_add_all:
  "unique_key ` set (add_all db b) = unique_key ` set db \<union> unique_key ` set b"
  unfolding add_all_def
  by (induction b arbitrary: db) (auto simp: keys_add)

lemma add_all_Cons: "add_all db (x # b) = add_all (add db x) b"
  by (simp add: add_all_def)

lemma add_all_existing:
  "unique_key ` set b \<subseteq> unique_key ` set db \<Longrightarrow>
     add_all db b = map (\<lambda>r. foldl on_conflict_update r (with_key (unique_key r) b)) db"
proof (induction b arbitrary: db)
  case Nil
  then show ?case by (simp add: add_all_def with_key_def)
next
  case (Cons x b)
  then have x: "unique_key x \<in> unique_key ` set db"
    and b: "unique_key ` set b \<subseteq> unique_key ` set (add db x)"
    by (auto simp: keys_add)
  have "add_all db (x # b) = add_all (add db x) b" by (rule add_all_Cons)
  also have "\<dots> = map (\<lambda>r. foldl on_conflict_update r (with_key (unique_key r) b)) (add db x)"
    by (rule Cons.IH [OF b])
  also have "\<dots> = map (\<lambda>r. foldl on_conflict_update r (with_key (unique_key r) (x # b))) db"
    using x by (simp add: add_def with_key_def)
  finally show ?case .
qed

lemma add_all_rows:
  "r \<in> set (add_all db b) \<Longrightarrow>
     (\<exists>u\<in>set db. r = foldl on_conflict_update u (with_key (unique_key u) b))
   \<or> (\<exists>b1 k b2. b = b1 @ k # b2 \<and> unique_key k \<notin> unique_key ` set b1
          \<and> unique_key k \<notin> unique_key ` set db
          \<and> r = foldl on_conflict_update k (with_key (unique_key k) b2))"
proof (induction b arbitrary: db)
  case Nil
  then show ?case by (simp add: add_all_def with_key_def)
next
  case (Cons x b)
  from Cons.prems have "r \<in> set (add_all (add db x) b)" by (simp add: add_all_Cons)
  from Cons.IH [OF this] show ?case
  proof
    assume "\<exists>u\<in>set (add db x). r = foldl on_conflict_update u (with_key (unique_key u) b)"
    then obtain u where u: "u \<in> set (add db x)"
      and r: "r = foldl on_conflict_update u (with_key (unique_key u) b)" by blast
    show ?thesis
    proof (cases "unique_key x \<in> unique_key ` set db")
      case True
      with u obtain u0 where u0: "u0 \<in> set db"
        and uu: "u = (if unique_key u0 = unique_key x then on_conflict_update u0 x else u0)"
        by (auto simp: add_def)
      have "r = foldl on_conflict_update u0 (with_key (unique_key u0) (x # b))"
        using r uu by (auto simp: with_key_def)
      with u0 show ?thesis by blast
    next
      case False
      with u have "u \<in> set db \<or> u = x" by (auto simp: add_def)
      then show ?thesis
      proof
        assume ud: "u \<in> set db"
        with False have "unique_key u \<noteq> unique_key x" by (metis imageI)
        then have "r = foldl on_conflict_update u (with_key (unique_key u) (x # b))"
          using r by (simp add: with_key_def)
        with ud show ?thesis by blast
      next
        assume "u = x"
        with r False have "x # b = [] @ x # b \<and> unique_key x \<notin> unique_key ` set []
          \<and> unique_key x \<notin> unique_key ` set db
          \<and> r = foldl on_conflict_update x (with_key (unique_key x) b)" by simp
        then show ?thesis by blast
      qed
    qed
  next
    assume "\<exists>b1 k b2. b = b1 @ k # b2 \<and> unique_key k \<notin> unique_key ` set b1
          \<and> unique_key k \<notin> unique_key ` set (add db x)
          \<and> r = foldl on_conflict_update k (with_key (unique_key k) b2)"
    then obtain b1 k b2 where s: "b = b1 @ k # b2" "unique_key k \<notin> unique_key ` set b1"
      "unique_key k \<notin> unique_key ` set (add db x)"
      "r = foldl on_conflict_update k (with_key (unique_key k) b2)" by blast
    from s(3) have "unique_key k \<noteq> unique_key x" "unique_key k \<notin> unique_key ` set db"
      by (auto simp: keys_add)
    with s have "x # b = (x # b1) @ k # b2 \<and> unique_key k \<notin> unique_key ` set (x # b1)
          \<and> unique_key k \<notin> unique_key ` set db
          \<and> r = foldl on_conflict_update k (with_key (unique_key k) b2)" by simp
    then show ?thesis by blast
  qed
qed

lemma add_all_absorbed:
  assumes "r \<in> set (add_all db b)"
  shows "foldl on_conflict_update r (with_key (unique_key r) b) = r"
  using add_all_rows [OF assms]
proof (elim disjE bexE exE conjE)
  fix u assume "u \<in> set db" and r: "r = foldl on_conflict_update u (with_key (unique_key u) b)"
  then show ?thesis by (simp add: merge_absorb_stored)
next
  fix b1 k b2
  assume b: "b = b1 @ k # b2" and n: "unique_key k \<notin> unique_key ` set b1"
    and r: "r = foldl on_conflict_update k (with_key (unique_key k) b2)"
  from n have "\<forall>x\<in>set b1. unique_key x \<noteq> unique_key k" by (metis imageI)
  then have "with_key (unique_key k) b1 = []"
    by (simp add: with_key_def filter_empty_conv)
  then have "with_key (unique_key k) b = k # with_key (unique_key k) b2"
    by (simp add: b with_key_def)
  then show ?thesis using r merge_absorb_new [of k "with_key (unique_key k) b2"] by simp
qed

lemma add_all_idempotent: "add_all (add_all db b) b = add_all db b"
proof -
  have "unique_key ` set b \<subseteq> unique_key ` set (add_all db b)"
    by (simp add: keys_add_all)
  then have "add_all (add_all db b) b =
      map (\<lambda>r. foldl on_conflict_update r (with_key (unique_key r) b)) (add_all db b)"
    by (rule add_all_existing)
  also have "\<dots> = map (\<lambda>r. r) (add_all db b)"
    by (rule map_cong [OF refl]) (rule add_all_absorbed)
  finally show ?thesis by simp
qed

lemma find_upd:
  "find (\<lambda>r. unique_key r = k)
     (map (\<lambda>r. if unique_key r = unique_key x then on_conflict_update r x else r) db) =
   map_option (\<lambda>r. if unique_key r = unique_key x then on_conflict_update r x else r)
     (find (\<lambda>r. unique_key r = k) db)"
  by (induction db) auto

lemma find_snoc:
  "find P (xs @ [y]) = (case find P xs of None \<Rightarrow> (if P y then Some y else None) | Some x \<Rightarrow> Some x)"
  by (induction xs) simp_all

lemma stored_add:
  "stored_happened_at (add db x) k =
     (if unique_key x = k then later (stored_happened_at db k) (happened_at x)
      else stored_happened_at db k)"
proof (cases "unique_key x \<in> unique_key ` set db")
  case True
  then have a: "add db x =
      map (\<lambda>r. if unique_key r = unique_key x then on_conflict_update r x else r) db"
    by (simp only: add_def if_True)
  show ?thesis
  proof (cases "find (\<lambda>r. unique_key r = k) db")
    case None
    then have "\<forall>r\<in>set db. unique_key r \<noteq> k" by (simp add: find_None_iff)
    then have "unique_key x \<noteq> k" using True by (metis imageE)
    with None show ?thesis
      by (simp add: stored_happened_at_def stored_def a find_upd)
  next
    case (Some r)
    then have "unique_key r = k" by (auto simp: find_Some_iff)
    with Some show ?thesis
      by (auto simp: stored_happened_at_def stored_def a find_upd later_def
          on_conflict_update_def max_def)
  qed
next
  case False
  then have a: "add db x = db @ [x]" by (simp add: add_def)
  show ?thesis
  proof (cases "unique_key x = k")
    case True
    from False have "\<forall>r\<in>set db. unique_key r \<noteq> unique_key x" by (metis imageI)
    with True have "find (\<lambda>r. unique_key r = k) db = None"
      by (simp add: find_None_iff)
    with True show ?thesis
      by (simp add: stored_happened_at_def stored_def a find_snoc later_def)
  next
    case False
    then show ?thesis
      by (simp add: stored_happened_at_def stored_def a find_snoc split: option.splits)
  qed
qed

lemma stored_add_all:
  "stored_happened_at (add_all db b) k =
     foldl later (stored_happened_at db k) (map happened_at (with_key k b))"
  by (induction b arbitrary: db) (simp_all add: add_all_def stored_add with_key_def)

lemma later_swap: "later (later s a) b = later (later s b) a"
  by (simp add: later_def max.left_commute max.commute split: option.splits)

lemma foldl_later_out: "foldl later (later s a) ts = later (foldl later s ts) a"
  by (induction ts arbitrary: s) (simp_all add: later_swap)

lemma foldl_later_commute:
  "foldl later (foldl later s xs) ys = foldl later (foldl later s ys) xs"
  by (induction ys arbitrary: s) (simp_all add: foldl_later_out)

lemma stored_order_independent:
  "stored_happened_at (add_all (add_all db b1) b2) k =
   stored_happened_at (add_all (add_all db b2) b1) k"
  by (simp add: stored_add_all foldl_later_commute)

lemma add_nth:
  assumes "i < length db"
  shows "add db kwargs ! i =
     (if unique_key (db ! i) = unique_key kwargs then on_conflict_update (db ! i) kwargs
      else db ! i)"
proof (cases "unique_key kwargs \<in> unique_key ` set db")
  case True
  then have "add db kwargs =
      map (\<lambda>r. if unique_key r = unique_key kwargs then on_conflict_update r kwargs else r) db"
    by (simp only: add_def if_True)
  with assms show ?thesis by simp
next
  case False
  then have "unique_key (db ! i) \<noteq> unique_key kwargs" using assms by (metis imageI nth_mem)
  with False assms show ?thesis by (simp add: add_def nth_append)
qed

text \<open>
  C2, as the code has it. Applying a batch twice gives the table that applying it once
  gives. Two batches applied in either order give every key the same stored
  \<open>happened_at\<close> (and the same keys). One \<open>add\<close> keeps every stored row at its place with
  its key and never lowers its \<open>happened_at\<close>; the row of the incoming key becomes the
  conflict update, whose \<open>happened_at\<close> is the greater of the stored and the incoming,
  whose key fields are the stored ones, and whose other fields are the incoming values
  where these are not null and the stored values where they are.
\<close>

theorem add_upsert:
  "add_all (add_all db batch) batch = add_all db batch
   \<and> (\<forall>k. stored_happened_at (add_all (add_all db batch) batch') k =
           stored_happened_at (add_all (add_all db batch') batch) k)
   \<and> (\<forall>i<length db.
         add db kwargs ! i =
           (if unique_key (db ! i) = unique_key kwargs
            then on_conflict_update (db ! i) kwargs else db ! i)
         \<and> unique_key (add db kwargs ! i) = unique_key (db ! i)
         \<and> happened_at (db ! i) \<le> happened_at (add db kwargs ! i))
   \<and> unique_key (on_conflict_update r kwargs) = unique_key r
   \<and> happened_at (on_conflict_update r kwargs) = max (happened_at r) (happened_at kwargs)
   \<and> account_has_feminine_name (on_conflict_update r kwargs) = account_has_feminine_name kwargs
   \<and> order_coupon (on_conflict_update r kwargs) =
       (if order_coupon kwargs = None then order_coupon r else order_coupon kwargs)
   \<and> subscription_interval (on_conflict_update r kwargs) =
       (if subscription_interval kwargs = None then subscription_interval r
        else subscription_interval kwargs)
   \<and> subscription_type (on_conflict_update r kwargs) =
       (if subscription_type kwargs = None then subscription_type r
        else subscription_type kwargs)"
proof (intro conjI allI impI)
  show "add_all (add_all db batch) batch = add_all db batch" by (rule add_all_idempotent)
next
  fix k show "stored_happened_at (add_all (add_all db batch) batch') k =
           stored_happened_at (add_all (add_all db batch') batch) k"
    by (rule stored_order_independent)
next
  fix i assume i: "i < length db"
  show "add db kwargs ! i =
           (if unique_key (db ! i) = unique_key kwargs
            then on_conflict_update (db ! i) kwargs else db ! i)"
    by (rule add_nth [OF i])
  show "unique_key (add db kwargs ! i) = unique_key (db ! i)"
    by (simp add: add_nth [OF i])
  show "happened_at (db ! i) \<le> happened_at (add db kwargs ! i)"
    by (simp add: add_nth [OF i] on_conflict_update_def)
qed (auto simp: on_conflict_update_def unique_key_def max_def split: option.splits)

theorem add_upsert_witness:
  "add_all (add_all [order_march_a] batch_one) batch_one = add_all [order_march_a] batch_one
   \<and> stored_happened_at (add_all (add_all [order_march_a] batch_one) batch_two)
        (ORDER, ''1'', (2023, 3, 1)) =
      stored_happened_at (add_all (add_all [order_march_a] batch_two) batch_one)
        (ORDER, ''1'', (2023, 3, 1))
   \<and> (0::nat) < length [order_march_a]
   \<and> add [order_march_a] order_march_b ! 0 = on_conflict_update order_march_a order_march_b
   \<and> happened_at (add [order_march_a] order_march_b ! 0) = 6
   \<and> order_coupon (on_conflict_update order_march_a order_march_b) = Some ''B''
   \<and> subscription_interval (on_conflict_update order_march_a order_march_b) = Some MONTH"
proof -
  note t = add_upsert [of "[order_march_a]" batch_one batch_two order_march_b order_march_a]
  have k: "unique_key order_march_a = unique_key order_march_b"
    by (simp add: unique_key_def order_march_a_def order_march_b_def)
  from t have "add_all (add_all [order_march_a] batch_one) batch_one =
      add_all [order_march_a] batch_one" by blast
  moreover from t have "stored_happened_at (add_all (add_all [order_march_a] batch_one) batch_two)
        (ORDER, ''1'', (2023, 3, 1)) =
      stored_happened_at (add_all (add_all [order_march_a] batch_two) batch_one)
        (ORDER, ''1'', (2023, 3, 1))" by blast
  moreover from t have "\<forall>i<length [order_march_a].
         add [order_march_a] order_march_b ! i =
           (if unique_key ([order_march_a] ! i) = unique_key order_march_b
            then on_conflict_update ([order_march_a] ! i) order_march_b
            else [order_march_a] ! i)" by blast
  then have "add [order_march_a] order_march_b ! 0 =
      on_conflict_update order_march_a order_march_b" using k by simp
  moreover from t have "happened_at (on_conflict_update order_march_a order_march_b) =
      max (happened_at order_march_a) (happened_at order_march_b)" by blast
  moreover from t have "order_coupon (on_conflict_update order_march_a order_march_b) =
       (if order_coupon order_march_b = None then order_coupon order_march_a
        else order_coupon order_march_b)" by blast
  moreover from t have "subscription_interval (on_conflict_update order_march_a order_march_b) =
       (if subscription_interval order_march_b = None then subscription_interval order_march_a
        else subscription_interval order_march_b)" by blast
  ultimately show ?thesis
    by (simp add: order_march_a_def order_march_b_def)
qed

text \<open>
  C2 as stated fails: the two batches share the \<open>trial_end\<close>, and the order of the day
  ends with coupon \<open>B\<close> when the first batch is applied first and with coupon \<open>A\<close> when
  the second is.
\<close>

theorem add_order_dependent_counterexample:
  "map_option order_coupon
     (stored (add_all (add_all [] batch_one) batch_two) (ORDER, ''1'', (2023, 3, 1))) =
     Some (Some ''B'')
   \<and> map_option order_coupon
     (stored (add_all (add_all [] batch_two) batch_one) (ORDER, ''1'', (2023, 3, 1))) =
     Some (Some ''A'')"
  by (simp add: add_all_def add_def stored_def unique_key_def on_conflict_update_def
      batch_one_def batch_two_def order_march_a_def order_march_b_def trial_end_march_def)

subsection \<open>The share of women\<close>

text \<open>
  \<open>active_women_ptc\<close> never divides by zero: with no active account it returns 0, and
  otherwise it returns what the floating-point expression gives.
\<close>

lemma active_women_ptc_guard:
  "active_women_ptc ceil_percent db date =
     (if active_count db date = 0 then Inr 0
      else Inr (ceil_percent (active_women_count db date) (active_count db date)))"
  by (simp add: active_women_ptc_def percent_def Let_def)

end
